theory Spec2Isabelle
  imports Main "HOL-Library.Word"
begin

section \<open>Errors and the parsing context\<close>

text \<open>
  The exceptions the formatter and the offset tracker can raise. \<open>ValueError\<close>
  carries its message. \<open>RecursionError\<close> is what the Python interpreter raises when a
  visitor method re-enters itself on the very same node.
\<close>

datatype error =
    ValueError string
  | AssertionError
  | IndexError
  | RecursionError

text \<open>
  Modelled from the spec: \<open>snuba.query.parsing.ParsingContext\<close> is imported by the
  formatter and is not among the sources. The spec describes it as the mutable set of
  alias strings already bound during the current pass; \<open>is_alias_present\<close> asks for
  membership and \<open>add_alias\<close> registers one alias.
\<close>

type_synonym parsing_context = "string set"

definition is_alias_present :: "parsing_context \<Rightarrow> string \<Rightarrow> bool" where
  "is_alias_present ctx a = (a \<in> ctx)"

definition add_alias :: "parsing_context \<Rightarrow> string \<Rightarrow> parsing_context" where
  "add_alias ctx a = insert a ctx"

section \<open>Escaping primitives\<close>

text \<open>
  Modelled from the spec: \<open>snuba.clickhouse.escaping\<close> is imported by the formatter and
  is not among the sources. The three escaping functions on present input, and the text
  Python's \<open>str\<close> gives for a float (an IEEE double, kept as its 64 bits), are taken as
  parameters of the formatter, so every theorem below holds for any escaping.
\<close>

record externals =
  esc_identifier :: "string \<Rightarrow> string"
  esc_alias :: "string \<Rightarrow> string"
  esc_string :: "string \<Rightarrow> string"
  float_str :: "64 word \<Rightarrow> string"

text \<open>
  Modelled from the spec: \<open>escape_identifier\<close> and \<open>escape_alias\<close> take an optional
  string; absent input yields absent output.
\<close>

definition escape_identifier :: "externals \<Rightarrow> string option \<Rightarrow> string option" where
  "escape_identifier x name = map_option (esc_identifier x) name"

definition escape_alias :: "externals \<Rightarrow> string option \<Rightarrow> string option" where
  "escape_alias x name = map_option (esc_alias x) name"

definition escape_string :: "externals \<Rightarrow> string \<Rightarrow> string" where
  "escape_string x v = esc_string x v"

text \<open>
  Modelled from the spec (section 4.1), for the concrete runs below: an identifier is
  quoted only if it has a character outside \<open>[A-Za-z0-9_]\<close>, starts with a digit or is a
  reserved word; quoting wraps it in the quote character and doubles each embedded quote
  character. \<open>escape_string\<close> wraps the value in single quotes and prefixes each
  backslash and single quote with a backslash. The quote character and the reserved words
  are parameters.
\<close>

definition ident_char :: "char \<Rightarrow> bool" where
  "ident_char c = (c \<in> set ''abcdefghijklmnopqrstuvwxyzABCDEFGHIJKLMNOPQRSTUVWXYZ0123456789_'')"

definition digit_char :: "char \<Rightarrow> bool" where
  "digit_char c = (c \<in> set ''0123456789'')"

definition needs_quote :: "string list \<Rightarrow> string \<Rightarrow> bool" where
  "needs_quote reserved name =
     (\<not> list_all ident_char name
      \<or> (case name of [] \<Rightarrow> False | c # _ \<Rightarrow> digit_char c)
      \<or> name \<in> set reserved)"

definition quote_name :: "char \<Rightarrow> string list \<Rightarrow> string \<Rightarrow> string" where
  "quote_name q reserved name =
     (if needs_quote reserved name
      then [q] @ concat (map (\<lambda>c. if c = q then [q, q] else [c]) name) @ [q]
      else name)"

definition quote_string :: "string \<Rightarrow> string" where
  "quote_string v =
     [CHR 0x27]
     @ concat (map (\<lambda>c. if c = CHR 0x5C \<or> c = CHR 0x27 then [CHR 0x5C, c] else [c]) v)
     @ [CHR 0x27]"

text \<open>
  Python's \<open>str\<close> of a float is a floating-point algorithm outside this model; the
  concrete runs below format no float literal and leave its text empty.
\<close>

definition no_float_str :: "64 word \<Rightarrow> string" where
  "no_float_str w = []"

definition spec_escaping :: "char \<Rightarrow> string list \<Rightarrow> externals" where
  "spec_escaping q reserved =
     \<lparr> esc_identifier = quote_name q reserved,
       esc_alias = quote_name q reserved,
       esc_string = quote_string,
       float_str = no_float_str \<rparr>"

section \<open>Alias binding\<close>

text \<open>Python's \<open>str\<close> of an optional string inside an f-string.\<close>

definition fstr :: "string option \<Rightarrow> string" where
  "fstr v = (case v of None \<Rightarrow> ''None'' | Some s \<Rightarrow> s)"

text \<open>
  \<open>ClickhouseExpressionFormatterBase._alias\<close>: \<open>not alias\<close> holds for an absent and for
  an empty alias. The result is the text (or the failed assertion) and the context after
  the call.
\<close>

definition fmt_alias ::
  "externals \<Rightarrow> string \<Rightarrow> string option \<Rightarrow> parsing_context
   \<Rightarrow> (error + string) \<times> parsing_context"
where
  "fmt_alias x formatted_exp alias ctx =
     (case alias of
        None \<Rightarrow> (Inr formatted_exp, ctx)
      | Some a \<Rightarrow>
          if a = [] then (Inr formatted_exp, ctx)
          else if is_alias_present ctx a then
            (case escape_alias x (Some a) of
               None \<Rightarrow> (Inl AssertionError, ctx)
             | Some ret \<Rightarrow> (Inr ret, ctx))
          else
            (Inr (''('' @ formatted_exp @ '' AS '' @ fstr (escape_alias x (Some a)) @ '')''),
             add_alias ctx a))"

section \<open>The expression tree\<close>

text \<open>
  \<open>datetime\<close> and \<open>date\<close> values: the calendar fields, and for a datetime the offset
  of its timezone in minutes when it has one.
\<close>

record pydate =
  year :: nat
  month :: nat
  day :: nat

record pydatetime = pydate +
  hour :: nat
  minute :: nat
  second :: nat
  microsecond :: nat
  tzinfo :: "int option"

text \<open>
  The value of a \<open>Literal\<close>: \<open>None\<close>, a bool, a str, an int, a float, a datetime, a
  date, or an object of any other class (kept as the name of its class, which is all the
  formatter reads of it).
\<close>

datatype lit_value =
    VNone
  | VBool bool
  | VStr string
  | VInt int
  | VFloat "64 word"
  | VDatetime pydatetime
  | VDate pydate
  | VOther string

datatype literal = Literal (l_alias: "string option") (l_value: lit_value)

datatype column =
  Column (c_alias: "string option") (table_name: "string option") (column_name: string)

datatype expression =
    ELiteral literal
  | EColumn column
  | SubscriptableReference "string option" column literal
  | FunctionCall "string option" string "expression list"
  | CurriedFunctionCall "string option" expression "expression list"
  | Argument "string option" string
  | Lambda "string option" "string list" expression

datatype strategy = Canonical | Anonymized

section \<open>Text of numbers and dates\<close>

text \<open>Python's \<open>str\<close> of an int: decimal digits, with a minus sign when negative.\<close>

fun str_nat :: "nat \<Rightarrow> string" where
  "str_nat n =
     (if n < 10 then [''0123456789'' ! n]
      else str_nat (n div 10) @ [''0123456789'' ! (n mod 10)])"

declare str_nat.simps [simp del]

definition str_int :: "int \<Rightarrow> string" where
  "str_int i = (if i < 0 then ''-'' @ str_nat (nat (- i)) else str_nat (nat i))"

text \<open>A field of \<open>isoformat\<close>: decimal digits, zero-padded on the left to a width.\<close>

definition zero_pad :: "nat \<Rightarrow> nat \<Rightarrow> string" where
  "zero_pad w n = replicate (w - length (str_nat n)) (CHR ''0'') @ str_nat n"

definition date_isoformat :: "'a pydate_scheme \<Rightarrow> string" where
  "date_isoformat d =
     zero_pad 4 (year d) @ ''-'' @ zero_pad 2 (month d) @ ''-'' @ zero_pad 2 (day d)"

text \<open>
  \<open>datetime.isoformat\<close>: the microseconds are printed only when they are not zero, the
  offset only when the value has a timezone.
\<close>

definition utcoffset_text :: "int \<Rightarrow> string" where
  "utcoffset_text off =
     (if off < 0 then ''-'' else ''+'')
     @ zero_pad 2 (nat \<bar>off\<bar> div 60) @ '':'' @ zero_pad 2 (nat \<bar>off\<bar> mod 60)"

definition datetime_isoformat :: "pydatetime \<Rightarrow> string" where
  "datetime_isoformat d =
     date_isoformat d @ ''T'' @ zero_pad 2 (hour d) @ '':'' @ zero_pad 2 (minute d)
     @ '':'' @ zero_pad 2 (second d)
     @ (if microsecond d = 0 then [] else ''.'' @ zero_pad 6 (microsecond d))
     @ (case tzinfo d of None \<Rightarrow> [] | Some off \<Rightarrow> utcoffset_text off)"

section \<open>Literals\<close>

text \<open>
  The five hooks of \<open>ClickhouseExpressionFormatter\<close>, each ending in \<open>_alias\<close>, and the
  five of \<open>ClickHouseExpressionFormatterAnonymized\<close>, each returning its token. A hook
  reads the alias and the value of the literal; \<open>visit_literal\<close> calls it only on a
  value of the hook's kind, so it takes the value at that type.
\<close>

type_synonym formatted = "(error + string) \<times> parsing_context"

definition format_string_literal ::
  "externals \<Rightarrow> strategy \<Rightarrow> string option \<Rightarrow> string \<Rightarrow> parsing_context \<Rightarrow> formatted"
where
  "format_string_literal x s alias v ctx =
     (case s of
        Canonical \<Rightarrow> fmt_alias x (escape_string x v) alias ctx
      | Anonymized \<Rightarrow> (Inr ''$S'', ctx))"

definition format_number_literal ::
  "externals \<Rightarrow> strategy \<Rightarrow> string option \<Rightarrow> int + 64 word \<Rightarrow> parsing_context \<Rightarrow> formatted"
where
  "format_number_literal x s alias v ctx =
     (case s of
        Canonical \<Rightarrow>
          fmt_alias x (case v of Inl i \<Rightarrow> str_int i | Inr f \<Rightarrow> float_str x f) alias ctx
      | Anonymized \<Rightarrow> (Inr ''$N'', ctx))"

definition format_boolean_literal ::
  "externals \<Rightarrow> strategy \<Rightarrow> string option \<Rightarrow> bool \<Rightarrow> parsing_context \<Rightarrow> formatted"
where
  "format_boolean_literal x s alias v ctx =
     (case s of
        Canonical \<Rightarrow>
          (if v then fmt_alias x ''true'' alias ctx else fmt_alias x ''false'' alias ctx)
      | Anonymized \<Rightarrow> (Inr ''$B'', ctx))"

definition format_datetime_literal ::
  "externals \<Rightarrow> strategy \<Rightarrow> string option \<Rightarrow> pydatetime \<Rightarrow> parsing_context \<Rightarrow> formatted"
where
  "format_datetime_literal x s alias v ctx =
     (case s of
        Canonical \<Rightarrow>
          (let value = v\<lparr>tzinfo := None, microsecond := 0\<rparr>
           in fmt_alias x
                (''toDateTime('' @ [CHR 0x27] @ datetime_isoformat value @ [CHR 0x27]
                 @ '', '' @ [CHR 0x27] @ ''Universal'' @ [CHR 0x27] @ '')'')
                alias ctx)
      | Anonymized \<Rightarrow> (Inr ''$DT'', ctx))"

definition format_date_literal ::
  "externals \<Rightarrow> strategy \<Rightarrow> string option \<Rightarrow> pydate \<Rightarrow> parsing_context \<Rightarrow> formatted"
where
  "format_date_literal x s alias v ctx =
     (case s of
        Canonical \<Rightarrow>
          fmt_alias x
            (''toDate('' @ [CHR 0x27] @ date_isoformat v @ [CHR 0x27]
             @ '', '' @ [CHR 0x27] @ ''Universal'' @ [CHR 0x27] @ '')'')
            alias ctx
      | Anonymized \<Rightarrow> (Inr ''$D'', ctx))"

text \<open>
  \<open>visit_literal\<close>: \<open>None\<close> first, then bool before the numbers (a Python bool is an
  int), datetime before date (a datetime is a date), and \<open>ValueError\<close> for the rest.
\<close>

definition visit_literal ::
  "externals \<Rightarrow> strategy \<Rightarrow> literal \<Rightarrow> parsing_context \<Rightarrow> formatted"
where
  "visit_literal x s exp ctx =
     (case l_value exp of
        VNone \<Rightarrow> fmt_alias x ''NULL'' (l_alias exp) ctx
      | VBool b \<Rightarrow> format_boolean_literal x s (l_alias exp) b ctx
      | VStr v \<Rightarrow> format_string_literal x s (l_alias exp) v ctx
      | VInt i \<Rightarrow> format_number_literal x s (l_alias exp) (Inl i) ctx
      | VFloat f \<Rightarrow> format_number_literal x s (l_alias exp) (Inr f) ctx
      | VDatetime d \<Rightarrow> format_datetime_literal x s (l_alias exp) d ctx
      | VDate d \<Rightarrow> format_date_literal x s (l_alias exp) d ctx
      | VOther cls \<Rightarrow>
          (Inl (ValueError (''Unexpected literal type <class '' @ [CHR 0x27] @ cls
                            @ [CHR 0x27] @ ''>'')), ctx))"

section \<open>Columns\<close>

text \<open>Python's \<open>v or ""\<close> on an optional string.\<close>

definition or_empty :: "string option \<Rightarrow> string" where
  "or_empty v = (case v of None \<Rightarrow> [] | Some s \<Rightarrow> s)"

text \<open>Python's truth value of an optional string: present and not empty.\<close>

definition truthy :: "string option \<Rightarrow> bool" where
  "truthy v = (case v of None \<Rightarrow> False | Some s \<Rightarrow> s \<noteq> [])"

text \<open>
  \<open>visit_column\<close>: \<open>ret\<close> and \<open>ret_unescaped\<close> are built side by side and joined; the
  alias is compared with the unescaped text.
\<close>

definition visit_column :: "externals \<Rightarrow> column \<Rightarrow> parsing_context \<Rightarrow> formatted" where
  "visit_column x exp ctx =
     (let ret =
            (if truthy (table_name exp)
             then [or_empty (escape_identifier x (table_name exp)), ''.'',
                   or_empty (escape_alias x (Some (column_name exp)))]
             else [or_empty (escape_identifier x (Some (column_name exp)))]);
          ret_unescaped =
            (if truthy (table_name exp)
             then [or_empty (table_name exp), ''.''] else [])
            @ [column_name exp]
      in if c_alias exp \<noteq> Some (concat ret_unescaped)
         then fmt_alias x (concat ret) (c_alias exp) ctx
         else (Inr (concat ret), ctx))"

section \<open>Identifiers that must be present\<close>

text \<open>
  \<open>__escape_identifier_enforce\<close>: the escaped identifier, asserted to be present.
\<close>

definition escape_identifier_enforce ::
  "externals \<Rightarrow> string \<Rightarrow> parsing_context \<Rightarrow> formatted"
where
  "escape_identifier_enforce x expr ctx =
     (case escape_identifier x (Some expr) of
        None \<Rightarrow> (Inl AssertionError, ctx)
      | Some ret \<Rightarrow> (Inr ret, ctx))"

section \<open>Flattening conditions\<close>

text \<open>
  Modelled from the spec: \<open>snuba.query.conditions\<close> is imported by the formatter and is
  not among the sources. The markers are the lowercase names \<open>and\<close> and \<open>or\<close>. A
  condition of an operator is a \<open>FunctionCall\<close> of that name with exactly two
  parameters; the flattener descends into both sides of such a node, left before right,
  and keeps anything else as one operand.
\<close>

definition AND :: string where "AND = ''and''"
definition OR :: string where "OR = ''or''"

fun get_first_level_conditions :: "string \<Rightarrow> expression \<Rightarrow> expression list" where
  "get_first_level_conditions function (FunctionCall alias name [lhs, rhs]) =
     (if name = function
      then get_first_level_conditions function lhs @ get_first_level_conditions function rhs
      else [FunctionCall alias name [lhs, rhs]])"
| "get_first_level_conditions function condition = [condition]"

definition get_first_level_and_conditions :: "expression \<Rightarrow> expression list" where
  "get_first_level_and_conditions condition = get_first_level_conditions AND condition"

definition get_first_level_or_conditions :: "expression \<Rightarrow> expression list" where
  "get_first_level_or_conditions condition = get_first_level_conditions OR condition"

text \<open>Python's \<open>sep.join(parts)\<close>.\<close>

fun join :: "string \<Rightarrow> string list \<Rightarrow> string" where
  "join sep [] = []"
| "join sep [p] = p"
| "join sep (p # q # ps) = p @ sep @ join sep (q # ps)"

text \<open>The operands the flattener returns are smaller than the node, unless it returns the node.\<close>

lemma flat_size_le:
  "size_list size (get_first_level_conditions f e) \<le> Suc (size e)"
  by (induction f e rule: get_first_level_conditions.induct) auto

lemma flat_size:
  "get_first_level_conditions f e = [e] \<or> size_list size (get_first_level_conditions f e) < size e"
proof (cases "\<exists>a l r. e = FunctionCall a f [l, r]")
  case True
  then obtain a l r where e: "e = FunctionCall a f [l, r]" by blast
  show ?thesis using flat_size_le[of f l] flat_size_le[of f r] by (simp add: e)
next
  case False
  then have "get_first_level_conditions f e = [e]"
    by (induction f e rule: get_first_level_conditions.induct) auto
  then show ?thesis by simp
qed

lemma flat_size_call:
  "get_first_level_conditions f (FunctionCall a n ps) \<noteq> [FunctionCall a n ps]
   \<Longrightarrow> size_list size (get_first_level_conditions f (FunctionCall a n ps))
       < Suc (size_list size ps)"
  using flat_size [of f "FunctionCall a n ps"] by simp

section \<open>The visitor\<close>

text \<open>
  One equation per \<open>visit_*\<close> method; \<open>accept\<close> is the dispatch on the variant.
  \<open>visit_params\<close> is the list comprehension of \<open>__visit_params\<close> and the generator
  of the AND and OR branches: the parameters are visited left to right on the one context,
  and the first failure ends the pass. The AND and OR branches visit the operands the
  flattener returns; when its only operand is the node itself, the visitor re-enters the
  same method on the same node with the same context until the interpreter raises
  \<open>RecursionError\<close>.
\<close>

function visit :: "externals \<Rightarrow> strategy \<Rightarrow> expression \<Rightarrow> parsing_context \<Rightarrow> formatted"
  and visit_params :: "externals \<Rightarrow> strategy \<Rightarrow> expression list \<Rightarrow> parsing_context
        \<Rightarrow> (error + string list) \<times> parsing_context"
where
  "visit x s (ELiteral exp) ctx = visit_literal x s exp ctx"
| "visit x s (EColumn exp) ctx = visit_column x exp ctx"
| "visit x s (SubscriptableReference alias column key) ctx =
     (case visit_column x column ctx of
        (Inl e, ctx1) \<Rightarrow> (Inl e, ctx1)
      | (Inr c, ctx1) \<Rightarrow>
          (case visit_literal x s key ctx1 of
             (Inl e, ctx2) \<Rightarrow> (Inl e, ctx2)
           | (Inr k, ctx2) \<Rightarrow> (Inr (c @ ''['' @ k @ '']''), ctx2)))"
| "visit x s (FunctionCall alias function_name parameters) ctx =
     (if function_name = ''array'' then
        (case visit_params x s parameters ctx of
           (Inl e, ctx1) \<Rightarrow> (Inl e, ctx1)
         | (Inr ret, ctx1) \<Rightarrow> fmt_alias x (''['' @ join '', '' ret @ '']'') alias ctx1)
      else if function_name = AND then
        (let conditions = get_first_level_and_conditions (FunctionCall alias function_name parameters)
         in if conditions = [FunctionCall alias function_name parameters]
            then (Inl RecursionError, ctx)
            else (case visit_params x s conditions ctx of
                    (Inl e, ctx1) \<Rightarrow> (Inl e, ctx1)
                  | (Inr formatted, ctx1) \<Rightarrow> (Inr (join '' AND '' formatted), ctx1)))
      else if function_name = OR then
        (let conditions = get_first_level_or_conditions (FunctionCall alias function_name parameters)
         in if conditions = [FunctionCall alias function_name parameters]
            then (Inl RecursionError, ctx)
            else (case visit_params x s conditions ctx of
                    (Inl e, ctx1) \<Rightarrow> (Inl e, ctx1)
                  | (Inr formatted, ctx1) \<Rightarrow> (Inr (''('' @ join '' OR '' formatted @ '')''), ctx1)))
      else
        (case visit_params x s parameters ctx of
           (Inl e, ctx1) \<Rightarrow> (Inl e, ctx1)
         | (Inr ret, ctx1) \<Rightarrow>
             fmt_alias x (fstr (escape_identifier x (Some function_name))
                          @ ''('' @ join '', '' ret @ '')'') alias ctx1))"
| "visit x s (CurriedFunctionCall alias internal_function parameters) ctx =
     (case visit x s internal_function ctx of
        (Inl e, ctx1) \<Rightarrow> (Inl e, ctx1)
      | (Inr int_func, ctx1) \<Rightarrow>
          (case visit_params x s parameters ctx1 of
             (Inl e, ctx2) \<Rightarrow> (Inl e, ctx2)
           | (Inr ret, ctx2) \<Rightarrow>
               fmt_alias x (int_func @ ''('' @ join '', '' ret @ '')'') alias ctx2))"
| "visit x s (Argument alias name) ctx = escape_identifier_enforce x name ctx"
| "visit x s (Lambda alias parameters transformation) ctx =
     (case those (map (\<lambda>v. escape_identifier x (Some v)) parameters) of
        None \<Rightarrow> (Inl AssertionError, ctx)
      | Some names \<Rightarrow>
          (case visit x s transformation ctx of
             (Inl e, ctx1) \<Rightarrow> (Inl e, ctx1)
           | (Inr body, ctx1) \<Rightarrow>
               fmt_alias x (''('' @ join '', '' names @ '' -> '' @ body @ '')'') alias ctx1))"
| "visit_params x s [] ctx = (Inr [], ctx)"
| "visit_params x s (p # ps) ctx =
     (case visit x s p ctx of
        (Inl e, ctx1) \<Rightarrow> (Inl e, ctx1)
      | (Inr r, ctx1) \<Rightarrow>
          (case visit_params x s ps ctx1 of
             (Inl e, ctx2) \<Rightarrow> (Inl e, ctx2)
           | (Inr rs, ctx2) \<Rightarrow> (Inr (r # rs), ctx2)))"
  by pat_completeness auto
termination
  apply (relation "measure (\<lambda>v. case v of Inl (x, s, e, ctx) \<Rightarrow> size e | Inr (x, s, ps, ctx) \<Rightarrow> size_list size ps)")
  apply (simp_all add: get_first_level_and_conditions_def get_first_level_or_conditions_def
      flat_size_call)
  done

section \<open>The offset tracker\<close>

text \<open>
  \<open>OffsetTracker\<close>: the epoch and the list \<open>__completed\<close>, whose entry at
  \<open>offset - epoch\<close> is \<open>None\<close> (never added), \<open>False\<close> (in progress) or \<open>True\<close>
  (completed). Python's \<open>add\<close>, \<open>remove\<close> and \<open>value\<close> carry the prefix
  \<open>tracker\<close> here.
\<close>

record offset_tracker =
  epoch :: int
  completed :: "bool option list"

definition tracker_init :: "int \<Rightarrow> offset_tracker" where
  "tracker_init e = \<lparr> epoch = e, completed = [] \<rparr>"

definition get_index :: "offset_tracker \<Rightarrow> int \<Rightarrow> int" where
  "get_index t offset = offset - epoch t"

definition tracker_add :: "offset_tracker \<Rightarrow> int \<Rightarrow> error + offset_tracker" where
  "tracker_add t offset =
     (let index = get_index t offset in
      if \<not> index \<ge> int (length (completed t))
      then Inl (ValueError ''offset must move monotonically'')
      else Inr (t\<lparr>completed :=
                  completed t @ replicate (nat index - length (completed t)) None
                  @ [Some False]\<rparr>))"

text \<open>
  \<open>remove\<close>: an index equal to the length passes the range check and the subscript
  raises \<open>IndexError\<close>.
\<close>

definition tracker_remove :: "offset_tracker \<Rightarrow> int \<Rightarrow> error + offset_tracker" where
  "tracker_remove t offset =
     (let index = get_index t offset in
      if \<not> index \<ge> 0 \<or> index > int (length (completed t))
      then Inl (ValueError ''offset out of range'')
      else if \<not> nat index < length (completed t) then Inl IndexError
      else if completed t ! nat index \<noteq> Some False
      then Inl (ValueError ''offset is already untracked'')
      else Inr (t\<lparr>completed := (completed t)[nat index := Some True]\<rparr>))"

text \<open>Python's \<open>list.index\<close>: the first position of the value, \<open>None\<close> for ValueError.\<close>

fun list_index :: "'a list \<Rightarrow> 'a \<Rightarrow> nat option" where
  "list_index [] v = None"
| "list_index (y # ys) v = (if y = v then Some 0 else map_option Suc (list_index ys v))"

definition tracker_value :: "offset_tracker \<Rightarrow> int" where
  "tracker_value t =
     (case list_index (completed t) (Some False) of
        Some i \<Rightarrow> epoch t + int i
      | None \<Rightarrow> epoch t + int (length (completed t)))"

text \<open>
  A history of the tracker: the calls made on it, in order, each returning without an
  error.
\<close>

datatype tracker_call = Add int | Remove int

fun tracker_step :: "offset_tracker \<Rightarrow> tracker_call \<Rightarrow> error + offset_tracker" where
  "tracker_step t (Add offset) = tracker_add t offset"
| "tracker_step t (Remove offset) = tracker_remove t offset"

fun tracker_run :: "offset_tracker \<Rightarrow> tracker_call list \<Rightarrow> error + offset_tracker" where
  "tracker_run t [] = Inr t"
| "tracker_run t (c # cs) =
     (case tracker_step t c of Inl e \<Rightarrow> Inl e | Inr t' \<Rightarrow> tracker_run t' cs)"

fun added :: "tracker_call list \<Rightarrow> int list" where
  "added [] = []"
| "added (Add offset # cs) = offset # added cs"
| "added (Remove offset # cs) = added cs"

fun removed :: "tracker_call list \<Rightarrow> int list" where
  "removed [] = []"
| "removed (Add offset # cs) = removed cs"
| "removed (Remove offset # cs) = offset # removed cs"

text \<open>
  The committable offset in the words of the spec: the earliest offset added and not yet
  removed; when there is none, one past the last added offset, or the epoch when nothing
  was ever added.
\<close>

definition committable :: "int \<Rightarrow> tracker_call list \<Rightarrow> int" where
  "committable e cs =
     (let pending = filter (\<lambda>offset. offset \<notin> set (removed cs)) (added cs) in
      if pending \<noteq> [] then Min (set pending)
      else if added cs = [] then e
      else last (added cs) + 1)"

section \<open>Notions the properties are stated with\<close>

text \<open>The same node with another alias.\<close>

fun with_alias :: "string option \<Rightarrow> expression \<Rightarrow> expression" where
  "with_alias a (ELiteral (Literal _ v)) = ELiteral (Literal a v)"
| "with_alias a (EColumn (Column _ t c)) = EColumn (Column a t c)"
| "with_alias a (SubscriptableReference _ c k) = SubscriptableReference a c k"
| "with_alias a (FunctionCall _ n ps) = FunctionCall a n ps"
| "with_alias a (CurriedFunctionCall _ f ps) = CurriedFunctionCall a f ps"
| "with_alias a (Argument _ n) = Argument a n"
| "with_alias a (Lambda _ ps b) = Lambda a ps b"

text \<open>
  The literal kinds other than null that the formatter recognises, the canonical text of
  a value in the words of the spec (4.4) and its category token (4.5).
\<close>

fun recognised_non_null :: "lit_value \<Rightarrow> bool" where
  "recognised_non_null VNone = False"
| "recognised_non_null (VOther cls) = False"
| "recognised_non_null v = True"

fun canonical_text :: "externals \<Rightarrow> lit_value \<Rightarrow> string" where
  "canonical_text x (VStr v) = esc_string x v"
| "canonical_text x (VInt i) = str_int i"
| "canonical_text x (VFloat f) = float_str x f"
| "canonical_text x (VBool b) = (if b then ''true'' else ''false'')"
| "canonical_text x (VDatetime d) =
     ''toDateTime('' @ [CHR 0x27] @ datetime_isoformat (d\<lparr>tzinfo := None, microsecond := 0\<rparr>)
     @ [CHR 0x27] @ '', '' @ [CHR 0x27] @ ''Universal'' @ [CHR 0x27] @ '')''"
| "canonical_text x (VDate d) =
     ''toDate('' @ [CHR 0x27] @ date_isoformat d
     @ [CHR 0x27] @ '', '' @ [CHR 0x27] @ ''Universal'' @ [CHR 0x27] @ '')''"
| "canonical_text x v = []"

fun category_token :: "lit_value \<Rightarrow> string" where
  "category_token (VStr v) = ''$S''"
| "category_token (VInt i) = ''$N''"
| "category_token (VFloat f) = ''$N''"
| "category_token (VBool b) = ''$B''"
| "category_token (VDatetime d) = ''$DT''"
| "category_token (VDate d) = ''$D''"
| "category_token v = []"

text \<open>
  The unescaped fully-qualified reference of a column and its escaped form. A table
  qualifier is present when the table name is neither absent nor empty, which is the test
  \<open>visit_column\<close> makes.
\<close>

definition qualified_name :: "column \<Rightarrow> string" where
  "qualified_name exp =
     (case table_name exp of
        None \<Rightarrow> column_name exp
      | Some t \<Rightarrow> if t = [] then column_name exp else t @ ''.'' @ column_name exp)"

definition escaped_reference :: "externals \<Rightarrow> column \<Rightarrow> string" where
  "escaped_reference x exp =
     (case table_name exp of
        None \<Rightarrow> esc_identifier x (column_name exp)
      | Some t \<Rightarrow>
          if t = [] then esc_identifier x (column_name exp)
          else esc_identifier x t @ ''.'' @ esc_alias x (column_name exp))"

text \<open>
  A call of a given function name, and the left-nested chain of AND nodes over a first
  operand and further operands, each further operand with the alias of the AND node that
  joins it.
\<close>

fun is_call_of :: "string \<Rightarrow> expression \<Rightarrow> bool" where
  "is_call_of f (FunctionCall alias name parameters) = (name = f)"
| "is_call_of f e = False"

fun and_chain :: "expression \<Rightarrow> (string option \<times> expression) list \<Rightarrow> expression" where
  "and_chain first [] = first"
| "and_chain first ((alias, operand) # rest) =
     and_chain (FunctionCall alias ''and'' [first, operand]) rest"

text \<open>
  Two values of the same kind: both strings, both numbers (int or float), both booleans,
  both datetimes or both dates; any other value only with itself. Two trees of the same
  shape are equal except for the values of literals, which are of the same kind at every
  position; aliases, names and structure are the same.
\<close>

fun same_kind :: "lit_value \<Rightarrow> lit_value \<Rightarrow> bool" where
  "same_kind (VStr v) (VStr w) = True"
| "same_kind (VInt v) (VInt w) = True"
| "same_kind (VInt v) (VFloat w) = True"
| "same_kind (VFloat v) (VInt w) = True"
| "same_kind (VFloat v) (VFloat w) = True"
| "same_kind (VBool v) (VBool w) = True"
| "same_kind (VDatetime v) (VDatetime w) = True"
| "same_kind (VDate v) (VDate w) = True"
| "same_kind v w = (v = w)"

fun same_literal :: "literal \<Rightarrow> literal \<Rightarrow> bool" where
  "same_literal (Literal a v) (Literal b w) = (a = b \<and> same_kind v w)"

fun same_shape :: "expression \<Rightarrow> expression \<Rightarrow> bool"
  and same_shapes :: "expression list \<Rightarrow> expression list \<Rightarrow> bool"
where
  "same_shape (ELiteral l) (ELiteral l') = same_literal l l'"
| "same_shape (EColumn c) (EColumn c') = (c = c')"
| "same_shape (SubscriptableReference a c k) (SubscriptableReference a' c' k') =
     (a = a' \<and> c = c' \<and> same_literal k k')"
| "same_shape (FunctionCall a n ps) (FunctionCall a' n' ps') =
     (a = a' \<and> n = n' \<and> same_shapes ps ps')"
| "same_shape (CurriedFunctionCall a f ps) (CurriedFunctionCall a' f' ps') =
     (a = a' \<and> same_shape f f' \<and> same_shapes ps ps')"
| "same_shape (Argument a n) (Argument a' n') = (a = a' \<and> n = n')"
| "same_shape (Lambda a ps b) (Lambda a' ps' b') = (a = a' \<and> ps = ps' \<and> same_shape b b')"
| "same_shape e e' = False"
| "same_shapes [] [] = True"
| "same_shapes (p # ps) (q # qs) = (same_shape p q \<and> same_shapes ps qs)"
| "same_shapes ps qs = False"

text \<open>
  A history follows the protocol of the tracker when every added offset is at or after
  the epoch and strictly greater than every offset added before it, and every removed
  offset was added before and not removed before. The two lists are the offsets added and
  removed so far.
\<close>

fun follows_protocol :: "int \<Rightarrow> int list \<Rightarrow> int list \<Rightarrow> tracker_call list \<Rightarrow> bool" where
  "follows_protocol e as rs [] = True"
| "follows_protocol e as rs (Add offset # cs) =
     (e \<le> offset \<and> list_all (\<lambda>a. a < offset) as \<and> follows_protocol e (offset # as) rs cs)"
| "follows_protocol e as rs (Remove offset # cs) =
     (offset \<in> set as \<and> offset \<notin> set rs \<and> follows_protocol e as (offset # rs) cs)"

text \<open>
  What the list of the tracker holds after a history: the entry of an offset is
  \<open>None\<close> when it was never added, and otherwise says whether it was removed; the list
  ends at the last added offset.
\<close>

definition status :: "int \<Rightarrow> tracker_call list \<Rightarrow> nat \<Rightarrow> bool option" where
  "status e cs i =
     (if e + int i \<in> set (added cs) then Some (e + int i \<in> set (removed cs)) else None)"

definition tracker_inv :: "int \<Rightarrow> tracker_call list \<Rightarrow> offset_tracker \<Rightarrow> bool" where
  "tracker_inv e cs t \<longleftrightarrow>
     epoch t = e
     \<and> completed t = map (status e cs) [0..<length (completed t)]
     \<and> int (length (completed t)) = (if added cs = [] then 0 else last (added cs) - e + 1)
     \<and> sorted_wrt (<) (added cs)
     \<and> (\<forall>a \<in> set (added cs). e \<le> a)
     \<and> distinct (removed cs)
     \<and> set (removed cs) \<subseteq> set (added cs)"

text \<open>
  A value of none of the six recognised kinds, and a tree with a literal of such a value
  somewhere in it.
\<close>

fun unexpected_value :: "lit_value \<Rightarrow> bool" where
  "unexpected_value (VOther cls) = True"
| "unexpected_value v = False"

fun has_unexpected :: "expression \<Rightarrow> bool"
  and any_unexpected :: "expression list \<Rightarrow> bool"
where
  "has_unexpected (ELiteral l) = unexpected_value (l_value l)"
| "has_unexpected (EColumn c) = False"
| "has_unexpected (SubscriptableReference a c k) = unexpected_value (l_value k)"
| "has_unexpected (FunctionCall a n ps) = any_unexpected ps"
| "has_unexpected (CurriedFunctionCall a f ps) = (has_unexpected f \<or> any_unexpected ps)"
| "has_unexpected (Argument a n) = False"
| "has_unexpected (Lambda a ps b) = has_unexpected b"
| "any_unexpected [] = False"
| "any_unexpected (p # ps) = (has_unexpected p \<or> any_unexpected ps)"




section \<open>Facts about alias binding and flattening\<close>

lemmas esc_defs = spec_escaping_def quote_name_def needs_quote_def ident_char_def digit_char_def
  quote_string_def escape_identifier_def escape_alias_def escape_string_def fstr_def or_empty_def truthy_def

lemma fmt_alias_snd:
  "snd (fmt_alias x t al ctx) = (case al of None \<Rightarrow> ctx | Some a \<Rightarrow> if a = [] then ctx else insert a ctx)"
  by (auto simp: fmt_alias_def is_alias_present_def add_alias_def escape_alias_def split: option.splits)

lemma fmt_alias_fst:
  "fst (fmt_alias x t al ctx) =
     Inr (case al of None \<Rightarrow> t
          | Some a \<Rightarrow> if a = [] then t else if a \<in> ctx then esc_alias x a
                      else ''('' @ t @ '' AS '' @ esc_alias x a @ '')'')"
  by (simp add: fmt_alias_def is_alias_present_def add_alias_def escape_alias_def fstr_def split: option.splits)

lemma fmt_alias_eq:
  "fmt_alias x t al ctx =
     (Inr (case al of None \<Rightarrow> t
           | Some a \<Rightarrow> if a = [] then t else if a \<in> ctx then esc_alias x a
                       else ''('' @ t @ '' AS '' @ esc_alias x a @ '')''),
      case al of None \<Rightarrow> ctx | Some a \<Rightarrow> if a = [] then ctx else insert a ctx)"
  using fmt_alias_fst [of x t al ctx] fmt_alias_snd [of x t al ctx]
  by (metis prod.collapse)

lemma flat_nonempty: "get_first_level_conditions f e \<noteq> []"
  by (induction f e rule: get_first_level_conditions.induct) auto

lemma flat_call:
  "get_first_level_conditions f (FunctionCall a n ps) =
     (if n = f \<and> length ps = 2
      then get_first_level_conditions f (ps ! 0) @ get_first_level_conditions f (ps ! 1)
      else [FunctionCall a n ps])"
  by (cases ps; cases "tl ps"; cases "tl (tl ps)") auto

lemma flat_binary_not_self:
  "get_first_level_conditions f l @ get_first_level_conditions f r \<noteq> [e]"
  using flat_nonempty [of f l] flat_nonempty [of f r]
  by (cases "get_first_level_conditions f l"; cases "get_first_level_conditions f r") auto

lemma fmt_alias_empty: "fmt_alias x t (Some []) c = fmt_alias x t None c"
  by (simp add: fmt_alias_def)

lemma visit_call_empty_alias:
  "visit x s (FunctionCall (Some []) n ps) ctx = visit x s (FunctionCall None n ps) ctx"
  by (simp add: fmt_alias_empty get_first_level_and_conditions_def
      get_first_level_or_conditions_def flat_call flat_binary_not_self Let_def
      cong: prod.case_cong sum.case_cong)

lemma visit_and_binary:
  "visit x s (FunctionCall alias ''and'' [lhs, rhs]) ctx =
     (case visit_params x s
             (get_first_level_conditions ''and'' lhs @ get_first_level_conditions ''and'' rhs) ctx of
        (Inl e, ctx1) \<Rightarrow> (Inl e, ctx1)
      | (Inr formatted, ctx1) \<Rightarrow> (Inr (join '' AND '' formatted), ctx1))"
  by (simp add: AND_def get_first_level_and_conditions_def flat_binary_not_self)

lemma flat_leaf: "\<not> is_call_of f e \<Longrightarrow> get_first_level_conditions f e = [e]"
  by (induction f e rule: get_first_level_conditions.induct) auto

lemma flat_leaves:
  "list_all (\<lambda>e. \<not> is_call_of f e) es \<Longrightarrow> concat (map (get_first_level_conditions f) es) = es"
  by (induction es) (simp_all add: flat_leaf)

lemma flat_and_chain:
  "get_first_level_conditions ''and'' (and_chain first rest) =
     get_first_level_conditions ''and'' first
     @ concat (map (get_first_level_conditions ''and'') (map snd rest))"
  by (induction first rest rule: and_chain.induct) simp_all

lemma and_chain_snoc:
  "and_chain first (rest @ [(alias, operand)]) =
     FunctionCall alias ''and'' [and_chain first rest, operand]"
  by (induction first rest rule: and_chain.induct) simp_all

section \<open>Facts about trees of the same shape\<close>

lemma same_shapes_length: "same_shapes ps qs \<Longrightarrow> length ps = length qs"
  by (induction ps arbitrary: qs) (case_tac qs; simp)+

lemma same_shapes_append:
  "same_shapes ps qs \<Longrightarrow> same_shapes ps' qs' \<Longrightarrow> same_shapes (ps @ ps') (qs @ qs')"
  by (induction ps arbitrary: qs) (case_tac qs; simp)+

lemma same_shapes_nth:
  "same_shapes ps qs \<Longrightarrow> i < length ps \<Longrightarrow> same_shape (ps ! i) (qs ! i)"
proof (induction ps arbitrary: qs i)
  case Nil
  then show ?case by simp
next
  case (Cons p ps)
  then show ?case by (cases qs; cases i) simp_all
qed

lemma flat_not_binary:
  "\<nexists>a l r. e = FunctionCall a f [l, r] \<Longrightarrow> get_first_level_conditions f e = [e]"
  by (induction f e rule: get_first_level_conditions.induct) auto

lemma flat_self_iff:
  "get_first_level_conditions f (FunctionCall a n ps) = [FunctionCall a n ps]
   \<longleftrightarrow> \<not> (n = f \<and> length ps = 2)"
  by (simp add: flat_call flat_binary_not_self)

lemma same_shape_binary:
  "same_shape (FunctionCall a f [l, r]) e' \<Longrightarrow>
   \<exists>l' r'. e' = FunctionCall a f [l', r'] \<and> same_shape l l' \<and> same_shape r r'"
proof (cases e')
  case (FunctionCall a' n' ps')
  assume "same_shape (FunctionCall a f [l, r]) e'"
  then have h: "a = a'" "f = n'" "same_shapes [l, r] ps'" by (simp_all add: FunctionCall)
  then obtain l' r' where "ps' = [l', r']"
    by (cases ps'; cases "tl ps'"; cases "tl (tl ps')") auto
  then show ?thesis using h FunctionCall by auto
qed simp_all

lemma same_shape_binary_rev:
  "same_shape e (FunctionCall a f [l', r']) \<Longrightarrow>
   \<exists>l r. e = FunctionCall a f [l, r]"
proof (cases e)
  case (FunctionCall a0 n0 ps)
  assume "same_shape e (FunctionCall a f [l', r'])"
  then have h: "a0 = a" "n0 = f" "same_shapes ps [l', r']" by (simp_all add: FunctionCall)
  then obtain l r where "ps = [l, r]"
    by (cases ps; cases "tl ps"; cases "tl (tl ps)") auto
  then show ?thesis using h FunctionCall by auto
qed simp_all

lemma same_shape_flat:
  "same_shape e e' \<Longrightarrow>
   same_shapes (get_first_level_conditions f e) (get_first_level_conditions f e')"
proof (induction e arbitrary: e' rule: measure_induct_rule [of size])
  case (less e)
  show ?case
  proof (cases "\<exists>a l r. e = FunctionCall a f [l, r]")
    case True
    then obtain a l r where e: "e = FunctionCall a f [l, r]" by blast
    obtain l' r' where e': "e' = FunctionCall a f [l', r']" and s: "same_shape l l'" "same_shape r r'"
      using same_shape_binary less.prems e by blast
    have "same_shapes (get_first_level_conditions f l) (get_first_level_conditions f l')"
      using less.IH [of l l'] s e by simp
    moreover have "same_shapes (get_first_level_conditions f r) (get_first_level_conditions f r')"
      using less.IH [of r r'] s e by simp
    ultimately show ?thesis by (simp add: e e' same_shapes_append)
  next
    case False
    then have "\<nexists>a l r. e' = FunctionCall a f [l, r]"
      using same_shape_binary_rev less.prems by blast
    then show ?thesis using False less.prems by (simp add: flat_not_binary)
  qed
qed

lemma anon_literal:
  "same_literal l l' \<Longrightarrow> visit_literal x Anonymized l ctx = visit_literal x Anonymized l' ctx"
  by (cases l; cases l'; cases "l_value l"; cases "l_value l'")
     (simp_all add: visit_literal_def format_boolean_literal_def format_string_literal_def
       format_number_literal_def format_datetime_literal_def format_date_literal_def)

lemma anon_same_shape:
  "s = Anonymized \<Longrightarrow> same_shape e e' \<Longrightarrow> visit x s e ctx = visit x s e' ctx"
  "s = Anonymized \<Longrightarrow> same_shapes ps qs \<Longrightarrow> visit_params x s ps ctx = visit_params x s qs ctx"
proof (induction x s e ctx and x s ps ctx arbitrary: e' and qs
       rule: visit_visit_params.induct)
  case (1 x s exp ctx)
  then show ?case by (cases e') (auto simp: anon_literal)
next
  case (2 x s exp ctx)
  then show ?case by (cases e') simp_all
next
  case (3 x s al column key ctx)
  then show ?case
    by (cases e') (auto simp: anon_literal cong: prod.case_cong sum.case_cong)
next
  case (4 x s al function_name parameters ctx)
  from "4.prems" obtain ps' where e': "e' = FunctionCall al function_name ps'"
    and ps: "same_shapes parameters ps'"
    by (cases e') simp_all
  have len: "length ps' = length parameters" using ps by (simp add: same_shapes_length)
  show ?case
  proof (cases "function_name = ''array''")
    case True
    then show ?thesis using "4.IH"(1) [OF True "4.prems"(1) ps] by (simp add: e')
  next
    case na: False
    show ?thesis
    proof (cases "function_name = AND")
      case True
      show ?thesis
      proof (cases "function_name = AND \<and> length parameters = 2")
        case bin: True
        have self: "get_first_level_and_conditions (FunctionCall al function_name parameters)
                      \<noteq> [FunctionCall al function_name parameters]"
          using bin by (simp add: get_first_level_and_conditions_def flat_self_iff)
        have self': "get_first_level_and_conditions (FunctionCall al function_name ps')
                      \<noteq> [FunctionCall al function_name ps']"
          using bin len by (simp add: get_first_level_and_conditions_def flat_self_iff)
        have "same_shapes (get_first_level_and_conditions (FunctionCall al function_name parameters))
                (get_first_level_and_conditions (FunctionCall al function_name ps'))"
          unfolding get_first_level_and_conditions_def
          by (rule same_shape_flat) (simp add: ps)
        from "4.IH"(2) [OF na True refl self "4.prems"(1) this]
        show ?thesis using na True self self' by (simp add: e' Let_def)
      next
        case False
        then show ?thesis using na True len
          by (simp add: e' Let_def get_first_level_and_conditions_def flat_self_iff)
      qed
    next
      case nand: False
      show ?thesis
      proof (cases "function_name = OR")
        case True
        show ?thesis
        proof (cases "function_name = OR \<and> length parameters = 2")
          case bin: True
          have self: "get_first_level_or_conditions (FunctionCall al function_name parameters)
                        \<noteq> [FunctionCall al function_name parameters]"
            using bin by (simp add: get_first_level_or_conditions_def flat_self_iff)
          have self': "get_first_level_or_conditions (FunctionCall al function_name ps')
                        \<noteq> [FunctionCall al function_name ps']"
            using bin len by (simp add: get_first_level_or_conditions_def flat_self_iff)
          have "same_shapes (get_first_level_or_conditions (FunctionCall al function_name parameters))
                  (get_first_level_or_conditions (FunctionCall al function_name ps'))"
            unfolding get_first_level_or_conditions_def
            by (rule same_shape_flat) (simp add: ps)
          from "4.IH"(3) [OF na nand True refl self "4.prems"(1) this]
          show ?thesis using na nand True self self' by (simp add: e' Let_def)
        next
          case False
          then show ?thesis using na nand True len
            by (simp add: e' Let_def get_first_level_or_conditions_def flat_self_iff)
        qed
      next
        case False
        then show ?thesis using "4.IH"(4) [OF na nand False "4.prems"(1) ps] na nand by (simp add: e')
      qed
    qed
  qed
next
  case (5 x s al internal_function parameters ctx)
  from "5.prems" obtain f' ps' where e': "e' = CurriedFunctionCall al f' ps'"
    and f: "same_shape internal_function f'" and ps: "same_shapes parameters ps'"
    by (cases e') simp_all
  have i: "visit x s internal_function ctx = visit x s f' ctx"
    using "5.IH"(1) [OF "5.prems"(1) f] .
  show ?case
  proof (cases "visit x s f' ctx")
    case (Pair r ctx1)
    show ?thesis
    proof (cases r)
      case (Inl err)
      then show ?thesis using i Pair by (simp add: e')
    next
      case (Inr int_func)
      have eq: "(r, ctx1) = visit x s internal_function ctx" using i Pair by simp
      have "visit_params x s parameters ctx1 = visit_params x s ps' ctx1"
        using "5.IH"(2) [OF eq Inr "5.prems"(1) ps] .
      then show ?thesis using i Pair Inr by (simp add: e')
    qed
  qed
next
  case (6 x s al name ctx)
  then show ?case by (cases e') simp_all
next
  case (7 x s al parameters transformation ctx)
  from "7.prems" obtain b' where e': "e' = Lambda al parameters b'"
    and b: "same_shape transformation b'"
    by (cases e') simp_all
  show ?case
  proof (cases "those (map (\<lambda>v. escape_identifier x (Some v)) parameters)")
    case None
    then show ?thesis by (simp add: e')
  next
    case (Some names)
    then show ?thesis using "7.IH" [OF Some "7.prems"(1) b] by (simp add: e')
  qed
next
  case (8 x s ctx)
  then show ?case by (cases qs) simp_all
next
  case (9 x s p ps ctx)
  from "9.prems" obtain q qs' where qs: "qs = q # qs'" and p: "same_shape p q"
    and ps: "same_shapes ps qs'"
    by (cases qs) simp_all
  have h: "visit x s p ctx = visit x s q ctx" using "9.IH"(1) [OF "9.prems"(1) p] .
  show ?case
  proof (cases "visit x s q ctx")
    case (Pair r ctx1)
    show ?thesis
    proof (cases r)
      case (Inl err)
      then show ?thesis using h Pair by (simp add: qs)
    next
      case (Inr t)
      have eq: "(r, ctx1) = visit x s p ctx" using h Pair by simp
      have "visit_params x s ps ctx1 = visit_params x s qs' ctx1"
        using "9.IH"(2) [OF eq Inr "9.prems"(1) ps] .
      then show ?thesis using h Pair Inr by (simp add: qs)
    qed
  qed
qed

section \<open>Facts about the offset tracker\<close>

lemma added_append: "added (cs @ ds) = added cs @ added ds"
  by (induction cs rule: added.induct) simp_all

lemma removed_append: "removed (cs @ ds) = removed cs @ removed ds"
  by (induction cs rule: removed.induct) simp_all

lemma tracker_run_snoc:
  "tracker_run t (cs @ [c]) =
     (case tracker_run t cs of Inl err \<Rightarrow> Inl err | Inr t' \<Rightarrow> tracker_step t' c)"
  by (induction cs arbitrary: t) (simp_all split: sum.splits)

lemma added_le_last:
  "sorted_wrt (<) xs \<Longrightarrow> a \<in> set xs \<Longrightarrow> a \<le> last (xs :: int list)"
proof (induction xs rule: rev_induct)
  case Nil
  then show ?case by simp
next
  case (snoc x xs)
  then show ?case by (auto simp: sorted_wrt_append less_imp_le)
qed

lemma inv_added_bound:
  assumes "tracker_inv e cs t" and "a \<in> set (added cs)"
  shows "e \<le> a" and "a - e < int (length (completed t))"
proof -
  show "e \<le> a" using assms by (simp add: tracker_inv_def)
  have ne: "added cs \<noteq> []" using assms(2) by auto
  have "a \<le> last (added cs)" using assms added_le_last by (simp add: tracker_inv_def)
  then show "a - e < int (length (completed t))"
    using assms(1) ne by (simp add: tracker_inv_def)
qed

lemma inv_nth:
  assumes "tracker_inv e cs t" and "i < length (completed t)"
  shows "completed t ! i = status e cs i"
proof -
  have "completed t ! i = map (status e cs) [0..<length (completed t)] ! i"
    using assms(1) by (simp add: tracker_inv_def)
  then show ?thesis using assms(2) by simp
qed

lemma list_eq_map_upt:
  "(\<And>i. i < length xs \<Longrightarrow> xs ! i = f i) \<Longrightarrow> xs = map f [0..<length xs]"
  by (rule nth_equalityI) simp_all

lemma inv_init: "tracker_inv e [] (tracker_init e)"
  by (simp add: tracker_inv_def tracker_init_def)

lemma inv_add:
  assumes inv: "tracker_inv e cs t" and ok: "tracker_add t offset = Inr t'"
  shows "tracker_inv e (cs @ [Add offset]) t'"
proof -
  let ?n = "length (completed t)"
  have ep: "epoch t = e" using inv by (simp add: tracker_inv_def)
  have ge: "int ?n \<le> offset - e"
    using ok ep by (simp add: tracker_add_def get_index_def Let_def split: if_splits)
  have t': "t' = t\<lparr>completed := completed t @ replicate (nat (offset - e) - ?n) None @ [Some False]\<rparr>"
    using ok ep by (simp add: tracker_add_def get_index_def Let_def split: if_splits)
  have len': "length (completed t') = Suc (nat (offset - e))"
    using ge by (simp add: t')
  have above: "a < offset" if "a \<in> set (added cs)" for a
    using inv_added_bound(2) [OF inv that] ge by simp
  have fresh: "offset \<notin> set (added cs)" using above by blast
  have notrem: "offset \<notin> set (removed cs)" using fresh inv by (auto simp: tracker_inv_def)
  have ad: "added (cs @ [Add offset]) = added cs @ [offset]" by (simp add: added_append)
  have rm: "removed (cs @ [Add offset]) = removed cs" by (simp add: removed_append)
  have entries: "completed t' ! i = status e (cs @ [Add offset]) i"
    if i: "i < Suc (nat (offset - e))" for i
  proof -
    consider "i < ?n" | "?n \<le> i" "i < nat (offset - e)" | "i = nat (offset - e)"
      using i by linarith
    then show ?thesis
    proof cases
      case 1
      then have "e + int i \<noteq> offset" using ge by simp
      then show ?thesis using 1 inv_nth [OF inv 1]
        by (simp add: t' nth_append status_def ad rm)
    next
      case 2
      then have ne: "e + int i \<noteq> offset" by simp
      have "e + int i \<notin> set (added cs)"
        using inv_added_bound(2) [OF inv, of "e + int i"] 2 by auto
      then show ?thesis using 2 ne
        by (simp add: t' nth_append status_def ad rm)
    next
      case 3
      then have "e + int i = offset" using ge by simp
      moreover have "\<not> i < ?n" using 3 ge by linarith
      moreover have "i - ?n = nat (offset - e) - ?n" using 3 by simp
      ultimately show ?thesis using notrem
        by (simp add: t' nth_append status_def ad rm)
    qed
  qed
  have "completed t' = map (status e (cs @ [Add offset])) [0..<length (completed t')]"
    by (rule list_eq_map_upt) (simp add: len' entries)
  moreover have "sorted_wrt (<) (added (cs @ [Add offset]))"
    using inv above by (simp add: ad sorted_wrt_append tracker_inv_def)
  moreover have "\<forall>a \<in> set (added (cs @ [Add offset])). e \<le> a"
    using inv ge by (auto simp: ad tracker_inv_def)
  moreover have "int (length (completed t')) =
      (if added (cs @ [Add offset]) = [] then 0 else last (added (cs @ [Add offset])) - e + 1)"
    using ge by (simp add: len' ad)
  moreover have "epoch t' = e" using ep by (simp add: t')
  ultimately show ?thesis
    using inv by (auto simp: tracker_inv_def rm ad)
qed

lemma inv_remove:
  assumes inv: "tracker_inv e cs t" and ok: "tracker_remove t offset = Inr t'"
  shows "tracker_inv e (cs @ [Remove offset]) t'"
proof -
  let ?n = "length (completed t)"
  let ?k = "nat (offset - e)"
  have ep: "epoch t = e" using inv by (simp add: tracker_inv_def)
  have rng: "0 \<le> offset - e" "?k < ?n" "completed t ! ?k = Some False"
    using ok ep by (simp_all add: tracker_remove_def get_index_def Let_def split: if_splits)
  have t': "t' = t\<lparr>completed := (completed t)[?k := Some True]\<rparr>"
    using ok ep by (simp add: tracker_remove_def get_index_def Let_def split: if_splits)
  have off: "e + int ?k = offset" using rng(1) by simp
  have st: "status e cs ?k = Some False" using inv_nth [OF inv rng(2)] rng(3) by simp
  have isadded: "offset \<in> set (added cs)" and notrem: "offset \<notin> set (removed cs)"
    using st off by (auto simp: status_def split: if_splits)
  have ad: "added (cs @ [Remove offset]) = added cs" by (simp add: added_append)
  have rm: "removed (cs @ [Remove offset]) = removed cs @ [offset]" by (simp add: removed_append)
  have entries: "completed t' ! i = status e (cs @ [Remove offset]) i" if i: "i < ?n" for i
  proof (cases "i = ?k")
    case True
    then show ?thesis using i off isadded by (simp add: t' status_def ad rm)
  next
    case False
    then have "e + int i \<noteq> offset" using rng(1) by auto
    then show ?thesis using False i inv_nth [OF inv i]
      by (simp add: t' status_def ad rm)
  qed
  have len': "length (completed t') = ?n" by (simp add: t')
  have "completed t' = map (status e (cs @ [Remove offset])) [0..<length (completed t')]"
    by (rule list_eq_map_upt) (simp add: len' entries)
  moreover note len'
  moreover have "epoch t' = e" using ep by (simp add: t')
  ultimately show ?thesis
    using inv isadded notrem by (auto simp: tracker_inv_def rm ad)
qed

lemma inv_run:
  "tracker_run (tracker_init e) cs = Inr t \<Longrightarrow> tracker_inv e cs t"
proof (induction cs arbitrary: t rule: rev_induct)
  case Nil
  then show ?case using inv_init by auto
next
  case (snoc c cs)
  from snoc.prems obtain t0 where r: "tracker_run (tracker_init e) cs = Inr t0"
    and s: "tracker_step t0 c = Inr t"
    by (auto simp: tracker_run_snoc split: sum.splits)
  have i0: "tracker_inv e cs t0" using snoc.IH [OF r] .
  show ?case
  proof (cases c)
    case (Add offset)
    then show ?thesis using inv_add [OF i0] s by simp
  next
    case (Remove offset)
    then show ?thesis using inv_remove [OF i0] s by simp
  qed
qed

lemma list_index_None: "list_index xs v = None \<Longrightarrow> v \<notin> set xs"
  by (induction xs) (auto split: if_splits)

lemma list_index_Some:
  "list_index xs v = Some i \<Longrightarrow> i < length xs \<and> xs ! i = v \<and> (\<forall>j<i. xs ! j \<noteq> v)"
proof (induction xs arbitrary: i)
  case Nil
  then show ?case by simp
next
  case (Cons y ys)
  show ?case
  proof (cases "y = v")
    case True
    then show ?thesis using Cons.prems by simp
  next
    case False
    then obtain k where k: "list_index ys v = Some k" and i: "i = Suc k"
      using Cons.prems by auto
    have "k < length ys \<and> ys ! k = v \<and> (\<forall>j<k. ys ! j \<noteq> v)" using Cons.IH [OF k] .
    then show ?thesis using False i by (auto simp: nth_Cons split: nat.splits)
  qed
qed

lemma pending_index:
  assumes inv: "tracker_inv e cs t"
    and p: "p \<in> set (added cs)" "p \<notin> set (removed cs)"
  shows "nat (p - e) < length (completed t)" and "completed t ! nat (p - e) = Some False"
proof -
  have b: "e \<le> p" "p - e < int (length (completed t))"
    using inv_added_bound [OF inv p(1)] by simp_all
  then show l: "nat (p - e) < length (completed t)" by linarith
  have "e + int (nat (p - e)) = p" using b(1) by simp
  then show "completed t ! nat (p - e) = Some False"
    using inv_nth [OF inv l] p by (simp add: status_def)
qed

lemma inv_value:
  assumes inv: "tracker_inv e cs t"
  shows "tracker_value t = committable e cs"
proof -
  let ?pending = "filter (\<lambda>offset. offset \<notin> set (removed cs)) (added cs)"
  have ep: "epoch t = e" using inv by (simp add: tracker_inv_def)
  show ?thesis
  proof (cases "list_index (completed t) (Some False)")
    case None
    have "?pending = []"
    proof (rule ccontr)
      assume "?pending \<noteq> []"
      then obtain p where "p \<in> set ?pending" by (cases ?pending) auto
      then have "p \<in> set (added cs)" "p \<notin> set (removed cs)" by auto
      from pending_index [OF inv this] have "Some False \<in> set (completed t)"
        by (metis nth_mem)
      then show False using list_index_None [OF None] by simp
    qed
    moreover have "e + int (length (completed t))
                     = (if added cs = [] then e else last (added cs) + 1)"
      using inv by (simp add: tracker_inv_def)
    ultimately show ?thesis using None ep by (simp add: tracker_value_def committable_def)
  next
    case (Some i)
    from list_index_Some [OF Some]
    have i: "i < length (completed t)" "completed t ! i = Some False"
      "\<forall>j<i. completed t ! j \<noteq> Some False" by simp_all
    have "status e cs i = Some False" using inv_nth [OF inv i(1)] i(2) by simp
    then have mem: "e + int i \<in> set ?pending"
      by (auto simp: status_def split: if_splits)
    have least: "e + int i \<le> p" if "p \<in> set ?pending" for p
    proof -
      from that have p: "p \<in> set (added cs)" "p \<notin> set (removed cs)" by auto
      from pending_index [OF inv p] i(3) have "\<not> nat (p - e) < i" by blast
      moreover have "e \<le> p" using inv_added_bound(1) [OF inv p(1)] .
      ultimately show ?thesis by linarith
    qed
    have "Min (set ?pending) = e + int i"
      by (rule Min_eqI) (use mem least in auto)
    moreover have "?pending \<noteq> []" using mem by (cases ?pending) simp_all
    ultimately show ?thesis using Some ep by (simp add: tracker_value_def committable_def)
  qed
qed

lemma inv_add_rejected:
  assumes inv: "tracker_inv e cs t" and a: "a \<in> set (added cs)" and le: "offset \<le> a"
  shows "tracker_add t offset = Inl (ValueError ''offset must move monotonically'')"
proof -
  have "a - e < int (length (completed t))" using inv_added_bound(2) [OF inv a] .
  then have "offset - epoch t < int (length (completed t))"
    using le inv by (simp add: tracker_inv_def)
  then show ?thesis by (simp add: tracker_add_def get_index_def)
qed

lemma add_accepted:
  assumes inv: "tracker_inv e cs t" and lo: "e \<le> offset"
    and above: "\<forall>a \<in> set (added cs). a < offset"
  shows "\<exists>t'. tracker_add t offset = Inr t'"
proof -
  have "int (length (completed t)) \<le> offset - epoch t"
  proof (cases "added cs = []")
    case True
    then show ?thesis using inv lo by (simp add: tracker_inv_def)
  next
    case False
    then have "last (added cs) < offset" using above by simp
    then show ?thesis using inv False by (simp add: tracker_inv_def)
  qed
  then show ?thesis by (simp add: tracker_add_def get_index_def)
qed

lemma remove_accepted:
  assumes inv: "tracker_inv e cs t"
    and p: "offset \<in> set (added cs)" "offset \<notin> set (removed cs)"
  shows "\<exists>t'. tracker_remove t offset = Inr t'"
proof -
  have ep: "epoch t = e" using inv by (simp add: tracker_inv_def)
  have lo: "0 \<le> offset - e" using inv_added_bound(1) [OF inv p(1)] by simp
  have k: "nat (offset - e) < length (completed t)"
    "completed t ! nat (offset - e) = Some False"
    using pending_index [OF inv p] by simp_all
  have "\<not> offset - e > int (length (completed t))" using k(1) by linarith
  then show ?thesis using lo k ep
    by (simp add: tracker_remove_def get_index_def Let_def)
qed

lemma inv_run_from:
  "tracker_inv e pre t \<Longrightarrow> tracker_run t cs = Inr t' \<Longrightarrow> tracker_inv e (pre @ cs) t'"
proof (induction cs arbitrary: pre t)
  case Nil
  then show ?case by simp
next
  case (Cons c cs)
  from Cons.prems(2) obtain t1 where s: "tracker_step t c = Inr t1"
    and r: "tracker_run t1 cs = Inr t'"
    by (auto split: sum.splits)
  have "tracker_inv e (pre @ [c]) t1"
    using s inv_add [OF Cons.prems(1)] inv_remove [OF Cons.prems(1)] by (cases c) simp_all
  from Cons.IH [OF this r] show ?case by simp
qed

lemma protocol_accepted:
  "tracker_inv e pre t \<Longrightarrow> set as = set (added pre) \<Longrightarrow> set rs = set (removed pre)
   \<Longrightarrow> follows_protocol e as rs cs \<Longrightarrow> \<exists>t'. tracker_run t cs = Inr t'"
proof (induction cs arbitrary: pre t as rs)
  case Nil
  then show ?case by simp
next
  case (Cons c cs)
  show ?case
  proof (cases c)
    case (Add offset)
    have f: "e \<le> offset" "\<forall>a \<in> set (added pre). a < offset"
      "follows_protocol e (offset # as) rs cs"
      using Cons.prems(2,4) by (simp_all add: Add list_all_iff)
    obtain t1 where t1: "tracker_add t offset = Inr t1"
      using add_accepted [OF Cons.prems(1) f(1,2)] by blast
    have i1: "tracker_inv e (pre @ [Add offset]) t1" using inv_add [OF Cons.prems(1) t1] .
    have "\<exists>t'. tracker_run t1 cs = Inr t'"
      by (rule Cons.IH [OF i1 _ _ f(3)])
         (simp_all add: added_append removed_append Cons.prems(2,3))
    then show ?thesis using t1 by (simp add: Add)
  next
    case (Remove offset)
    have f: "offset \<in> set (added pre)" "offset \<notin> set (removed pre)"
      "follows_protocol e as (offset # rs) cs"
      using Cons.prems(2,3,4) by (simp_all add: Remove)
    obtain t1 where t1: "tracker_remove t offset = Inr t1"
      using remove_accepted [OF Cons.prems(1) f(1,2)] by blast
    have i1: "tracker_inv e (pre @ [Remove offset]) t1"
      using inv_remove [OF Cons.prems(1) t1] .
    have "\<exists>t'. tracker_run t1 cs = Inr t'"
      by (rule Cons.IH [OF i1 _ _ f(3)])
         (simp_all add: added_append removed_append Cons.prems(2,3))
    then show ?thesis using t1 by (simp add: Remove)
  qed
qed

section \<open>Facts about unexpected literals\<close>

lemma any_unexpected_append:
  "any_unexpected (ps @ qs) \<longleftrightarrow> any_unexpected ps \<or> any_unexpected qs"
  by (induction ps) simp_all

lemma unexpected_literal_raises:
  "unexpected_value (l_value l) \<Longrightarrow> isl (fst (visit_literal x s l ctx))"
  by (cases "l_value l") (simp_all add: visit_literal_def)

lemma flat_unexpected:
  "has_unexpected e \<Longrightarrow> any_unexpected (get_first_level_conditions f e)"
proof (induction e rule: measure_induct_rule [of size])
  case (less e)
  show ?case
  proof (cases "\<exists>a l r. e = FunctionCall a f [l, r]")
    case True
    then obtain a l r where e: "e = FunctionCall a f [l, r]" by blast
    have "has_unexpected l \<or> has_unexpected r" using less.prems by (simp add: e)
    then show ?thesis
      using less.IH [of l] less.IH [of r] by (auto simp: e any_unexpected_append)
  next
    case False
    then show ?thesis using less.prems by (simp add: flat_not_binary)
  qed
qed

lemma unexpected_raises:
  "has_unexpected e \<Longrightarrow> isl (fst (visit x s e ctx))"
  "any_unexpected ps \<Longrightarrow> isl (fst (visit_params x s ps ctx))"
proof (induction x s e ctx and x s ps ctx rule: visit_visit_params.induct)
  case (1 x s exp ctx)
  then show ?case by (simp add: unexpected_literal_raises)
next
  case (2 x s exp ctx)
  then show ?case by simp
next
  case (3 x s al column key ctx)
  show ?case
  proof (cases "visit_column x column ctx")
    case (Pair r ctx1)
    show ?thesis
    proof (cases r)
      case (Inl err)
      then show ?thesis using Pair by simp
    next
      case (Inr c)
      have "isl (fst (visit_literal x s key ctx1))"
        using "3.prems" by (simp add: unexpected_literal_raises)
      then show ?thesis using Pair Inr
        by (cases "visit_literal x s key ctx1") (auto split: sum.splits)
    qed
  qed
next
  case (4 x s al function_name parameters ctx)
  let ?e = "FunctionCall al function_name parameters"
  have ps: "any_unexpected parameters" using "4.prems" by simp
  show ?case
  proof (cases "function_name = ''array''")
    case True
    then show ?thesis using "4.IH"(1) [OF True ps]
      by (auto split: prod.splits sum.splits)
  next
    case na: False
    show ?thesis
    proof (cases "function_name = AND")
      case True
      show ?thesis
      proof (cases "get_first_level_and_conditions ?e = [?e]")
        case self: True
        then show ?thesis using na True by simp
      next
        case False
        have "any_unexpected (get_first_level_and_conditions ?e)"
          unfolding get_first_level_and_conditions_def
          using "4.prems" by (rule flat_unexpected)
        from "4.IH"(2) [OF na True refl False this]
        show ?thesis using na True False by (auto simp: Let_def split: prod.splits sum.splits)
      qed
    next
      case nand: False
      show ?thesis
      proof (cases "function_name = OR")
        case True
        show ?thesis
        proof (cases "get_first_level_or_conditions ?e = [?e]")
          case self: True
          then show ?thesis using na nand True by simp
        next
          case False
          have "any_unexpected (get_first_level_or_conditions ?e)"
            unfolding get_first_level_or_conditions_def
            using "4.prems" by (rule flat_unexpected)
          from "4.IH"(3) [OF na nand True refl False this]
          show ?thesis using na nand True False
            by (auto simp: Let_def split: prod.splits sum.splits)
        qed
      next
        case False
        then show ?thesis using "4.IH"(4) [OF na nand False ps] na nand
          by (auto split: prod.splits sum.splits)
      qed
    qed
  qed
next
  case (5 x s al internal_function parameters ctx)
  show ?case
  proof (cases "visit x s internal_function ctx")
    case (Pair r ctx1)
    show ?thesis
    proof (cases r)
      case (Inl err)
      then show ?thesis using Pair by simp
    next
      case (Inr int_func)
      have "\<not> has_unexpected internal_function"
        using "5.IH"(1) Pair Inr by auto
      then have ps: "any_unexpected parameters" using "5.prems" by simp
      have eq: "(r, ctx1) = visit x s internal_function ctx" using Pair by simp
      have "isl (fst (visit_params x s parameters ctx1))"
        using "5.IH"(2) [OF eq Inr ps] .
      then show ?thesis using Pair Inr by (auto split: prod.splits sum.splits)
    qed
  qed
next
  case (6 x s al name ctx)
  then show ?case by simp
next
  case (7 x s al parameters transformation ctx)
  show ?case
  proof (cases "those (map (\<lambda>v. escape_identifier x (Some v)) parameters)")
    case None
    then show ?thesis by simp
  next
    case (Some names)
    have "has_unexpected transformation" using "7.prems" by simp
    from "7.IH" [OF Some this] show ?thesis using Some
      by (auto split: prod.splits sum.splits)
  qed
next
  case (8 x s ctx)
  then show ?case by simp
next
  case (9 x s p ps ctx)
  show ?case
  proof (cases "visit x s p ctx")
    case (Pair r ctx1)
    show ?thesis
    proof (cases r)
      case (Inl err)
      then show ?thesis using Pair by simp
    next
      case (Inr t)
      have "\<not> has_unexpected p" using "9.IH"(1) Pair Inr by auto
      then have ps: "any_unexpected ps" using "9.prems" by simp
      have eq: "(r, ctx1) = visit x s p ctx" using Pair by simp
      have "isl (fst (visit_params x s ps ctx1))" using "9.IH"(2) [OF eq Inr ps] .
      then show ?thesis using Pair Inr by (auto split: prod.splits sum.splits)
    qed
  qed
qed

section \<open>The examples of the spec, run on the model\<close>

text \<open>
  The array workaround, an OR inside an AND, the truncation of a datetime and the escaping
  of a string, as the spec gives them.
\<close>

lemma str_nat_digit: "n < 10 \<Longrightarrow> str_nat n = [''0123456789'' ! n]"
  by (simp add: str_nat.simps)

lemma example_array:
  "visit (spec_escaping (CHR 0x60) []) Canonical
     (FunctionCall None ''array''
        [ELiteral (Literal None (VInt 1)), ELiteral (Literal None (VInt 2)),
         ELiteral (Literal None (VInt 3))]) {}
   = (Inr ''[1, 2, 3]'', {})"
  by (simp add: visit_literal_def format_number_literal_def fmt_alias_def str_int_def
      str_nat_digit)

lemma example_or_inside_and:
  "visit (spec_escaping (CHR 0x60) []) Canonical
     (FunctionCall None ''and''
        [FunctionCall None ''or''
           [EColumn (Column None None ''a''), EColumn (Column None None ''b'')],
         EColumn (Column None None ''c'')]) {}
   = (Inr ''(a OR b) AND c'', {})"
  by (simp add: AND_def OR_def get_first_level_and_conditions_def
      get_first_level_or_conditions_def visit_column_def fmt_alias_def esc_defs)

lemma example_datetime:
  "visit (spec_escaping (CHR 0x60) []) Canonical
     (ELiteral (Literal None (VDatetime
        \<lparr>year = 2021, month = 5, day = 1, hour = 12, minute = 30, second = 45,
         microsecond = 987000, tzinfo = Some 120\<rparr>))) {}
   = (Inr (''toDateTime('' @ [CHR 0x27] @ ''2021-05-01T12:30:45'' @ [CHR 0x27] @ '', ''
           @ [CHR 0x27] @ ''Universal'' @ [CHR 0x27] @ '')''), {})"
  by (simp add: visit_literal_def format_datetime_literal_def fmt_alias_def
      datetime_isoformat_def date_isoformat_def zero_pad_def str_nat.simps)

lemma example_escape_string:
  "visit (spec_escaping (CHR 0x60) []) Canonical
     (ELiteral (Literal None (VStr [CHR ''O'', CHR 0x27, CHR ''R'', CHR 0x5C]))) {}
   = (Inr [CHR 0x27, CHR ''O'', CHR 0x5C, CHR 0x27, CHR ''R'', CHR 0x5C, CHR 0x5C, CHR 0x27], {})"
  by (simp add: visit_literal_def format_string_literal_def fmt_alias_def esc_defs)

section \<open>Facts about the context along a pass\<close>














text \<open>A call aliased like its own parameter: the parameter binds the alias first.\<close>

lemma example_nested_alias:
  "visit (spec_escaping (CHR 0x60) []) Canonical
     (FunctionCall (Some ''a'') ''f'' [EColumn (Column (Some ''a'') None ''x'')]) {}
   = (Inr ''a'', {''a''})"
  by (simp add: AND_def OR_def visit_column_def fmt_alias_def is_alias_present_def
      add_alias_def esc_defs)

section \<open>Null literals\<close>

text \<open>
  C1, as stated, fails: a null literal with a fresh alias \<open>x\<close> is rendered as
  \<open>(NULL AS x)\<close> by both formatters, and \<open>x\<close> is registered in the context.
\<close>

theorem null_literal_alias_counterexample:
  "visit (spec_escaping (CHR 0x60) []) Canonical (ELiteral (Literal (Some ''x'') VNone)) {}
     = (Inr ''(NULL AS x)'', {''x''})
   \<and> visit (spec_escaping (CHR 0x60) []) Anonymized (ELiteral (Literal (Some ''x'') VNone)) {}
     = (Inr ''(NULL AS x)'', {''x''})"
  by (simp add: visit_literal_def fmt_alias_def is_alias_present_def add_alias_def esc_defs)

text \<open>
  C1, amended: a null literal is rendered as the token \<open>NULL\<close> passed through the
  alias binding, by both formatters alike. Without an alias the text is \<open>NULL\<close> and the
  context is unchanged; with a fresh alias it is \<open>(NULL AS alias)\<close> and the alias is
  registered; with an alias already bound it is the escaped alias alone.
\<close>

theorem null_literal_bound:
  "visit x s (ELiteral (Literal None VNone)) ctx = (Inr ''NULL'', ctx)
   \<and> (a \<noteq> [] \<and> a \<notin> ctx \<longrightarrow>
        visit x s (ELiteral (Literal (Some a) VNone)) ctx
          = (Inr (''(NULL AS '' @ esc_alias x a @ '')''), insert a ctx))
   \<and> (a \<noteq> [] \<and> a \<in> ctx \<longrightarrow>
        visit x s (ELiteral (Literal (Some a) VNone)) ctx = (Inr (esc_alias x a), ctx))
   \<and> visit x s (ELiteral (Literal alias VNone)) ctx = fmt_alias x ''NULL'' alias ctx"
  by (auto simp: visit_literal_def fmt_alias_eq)

text \<open>C1, amended, on a fresh and on an already bound alias.\<close>

theorem null_literal_bound_witness:
  "visit (spec_escaping (CHR 0x60) []) Anonymized (ELiteral (Literal (Some ''n'') VNone)) {''m''}
     = (Inr ''(NULL AS n)'', {''n'', ''m''})
   \<and> visit (spec_escaping (CHR 0x60) []) Canonical (ELiteral (Literal (Some ''m'') VNone)) {''m''}
     = (Inr ''m'', {''m''})"
proof -
  let ?X = "spec_escaping (CHR 0x60) []"
  have e: "esc_alias ?X ''n'' = ''n''" "esc_alias ?X ''m'' = ''m''"
    by (simp_all add: esc_defs)
  have fresh: "visit ?X Anonymized (ELiteral (Literal (Some ''n'') VNone)) {''m''}
                 = (Inr ''(NULL AS n)'', {''n'', ''m''})"
    using null_literal_bound [where x = ?X and s = Anonymized and a = "''n''"
        and ctx = "{''m''}", THEN conjunct2, THEN conjunct1] e
    by simp
  have bound: "visit ?X Canonical (ELiteral (Literal (Some ''m'') VNone)) {''m''}
                 = (Inr ''m'', {''m''})"
    using null_literal_bound [where x = ?X and s = Canonical and a = "''m''"
        and ctx = "{''m''}", THEN conjunct2, THEN conjunct2, THEN conjunct1] e
    by simp
  show ?thesis using fresh bound by (rule conjI)
qed

section \<open>One binding per alias\<close>



section \<open>Literals of an unexpected kind\<close>

text \<open>
  C9: a literal whose value is of none of the six recognised kinds makes either formatter
  raise \<open>ValueError\<close> with a message naming the class of the value; no text is returned
  and the context is left as it was. A tree with such a literal anywhere in it has no
  text either: its formatting ends in an error.
\<close>

theorem unexpected_literal_fails:
  "visit x s (ELiteral (Literal alias (VOther cls))) ctx
     = (Inl (ValueError (''Unexpected literal type <class '' @ [CHR 0x27] @ cls @ [CHR 0x27] @ ''>'')),
        ctx)
   \<and> (has_unexpected e \<longrightarrow> (\<exists>err. fst (visit x s e ctx) = Inl err))"
  using unexpected_raises(1) [of e x s ctx] by (simp add: visit_literal_def isl_def)

text \<open>C9 on a call with a parameter of class \<open>dict\<close>.\<close>

theorem unexpected_literal_fails_witness:
  "has_unexpected
     (FunctionCall (Some ''r'') ''f''
        [EColumn (Column None None ''a''), ELiteral (Literal (Some ''v'') (VOther ''dict''))])
   \<and> (\<exists>err. fst (visit (spec_escaping (CHR 0x60) []) Anonymized
         (FunctionCall (Some ''r'') ''f''
            [EColumn (Column None None ''a''), ELiteral (Literal (Some ''v'') (VOther ''dict''))])
         {}) = Inl err)"
proof -
  let ?e = "FunctionCall (Some ''r'') ''f''
        [EColumn (Column None None ''a''), ELiteral (Literal (Some ''v'') (VOther ''dict''))]"
  have h: "has_unexpected ?e" by simp
  show ?thesis
    using unexpected_literal_fails [of "spec_escaping (CHR 0x60) []" Anonymized None "[]" "{}" ?e]
      h
    by blast
qed

section \<open>The empty alias\<close>

text \<open>
  C10: the alias binding returns the text unchanged and leaves the context unchanged for
  the empty alias, exactly as it does for an absent alias, and so every node formats the
  same under either formatter whether its alias is empty or absent.
\<close>

theorem empty_alias_is_absent:
  "fmt_alias x formatted_exp (Some []) ctx = (Inr formatted_exp, ctx)
   \<and> fmt_alias x formatted_exp (Some []) ctx = fmt_alias x formatted_exp None ctx
   \<and> visit x s (with_alias (Some []) e) ctx = visit x s (with_alias None e) ctx"
proof -
  have "visit x s (with_alias (Some []) e) ctx = visit x s (with_alias None e) ctx"
  proof (cases e)
    case (ELiteral l)
    obtain al v where l: "l = Literal al v" by (cases l)
    show ?thesis unfolding ELiteral l
      by (cases v; cases s)
         (simp_all add: visit_literal_def fmt_alias_empty format_boolean_literal_def
          format_string_literal_def format_number_literal_def format_datetime_literal_def
          format_date_literal_def)
  next
    case (EColumn c)
    obtain al t n where c: "c = Column al t n" by (cases c)
    show ?thesis unfolding EColumn c
      by (simp add: visit_column_def Let_def fmt_alias_def)
  next
    case (FunctionCall al n ps)
    then show ?thesis by (simp only: with_alias.simps visit_call_empty_alias)
  qed (simp_all add: fmt_alias_empty cong: prod.case_cong sum.case_cong option.case_cong)
  then show ?thesis by (simp add: fmt_alias_def)
qed

section \<open>Aliases on literals that are not null\<close>

text \<open>
  C3, as stated, fails: the anonymized formatter renders the aliased string literal as the
  bare token and leaves the context empty, where the canonical formatter binds the alias.
\<close>

theorem anonymized_literal_alias_counterexample:
  "visit (spec_escaping (CHR 0x60) []) Anonymized (ELiteral (Literal (Some ''x'') (VStr ''a''))) {}
     = (Inr ''$S'', {})
   \<and> visit (spec_escaping (CHR 0x60) []) Canonical (ELiteral (Literal (Some ''x'') (VStr ''a''))) {}
     = (Inr (''('' @ [CHR 0x27] @ ''a'' @ [CHR 0x27] @ '' AS x)''), {''x''})"
  by (simp add: visit_literal_def format_string_literal_def fmt_alias_def is_alias_present_def
      add_alias_def esc_defs)

text \<open>
  C3, amended: for a literal of a recognised kind other than null, the canonical formatter
  passes the text of the value through the alias binding, and the anonymized formatter
  returns the category token of the value as it is, whatever the alias, leaving the
  context unchanged.
\<close>

theorem literal_alias_by_strategy:
  assumes "recognised_non_null v"
  shows "visit x Canonical (ELiteral (Literal alias v)) ctx
           = fmt_alias x (canonical_text x v) alias ctx
         \<and> visit x Anonymized (ELiteral (Literal alias v)) ctx = (Inr (category_token v), ctx)"
  using assms
  by (cases v)
     (simp_all add: visit_literal_def format_boolean_literal_def format_string_literal_def
       format_number_literal_def format_datetime_literal_def format_date_literal_def
       escape_string_def)

text \<open>C3, amended, on the number 42 with the alias \<open>n\<close>.\<close>

theorem literal_alias_by_strategy_witness:
  "visit (spec_escaping (CHR 0x60) []) Canonical (ELiteral (Literal (Some ''n'') (VInt 42))) {}
     = (Inr ''(42 AS n)'', {''n''})
   \<and> visit (spec_escaping (CHR 0x60) []) Anonymized (ELiteral (Literal (Some ''n'') (VInt 42))) {}
     = (Inr ''$N'', {})"
proof -
  have r: "recognised_non_null (VInt 42)" by simp
  have t: "str_int 42 = ''42''" by (simp add: str_int_def str_nat.simps)
  show ?thesis
    using literal_alias_by_strategy [OF r, of "spec_escaping (CHR 0x60) []" "Some ''n''" "{}"] t
    by (simp add: fmt_alias_eq esc_defs)
qed

section \<open>Columns aliased to their own name\<close>

text \<open>
  C6: a column whose alias is its unescaped fully-qualified reference is rendered as the
  escaped reference alone, and the context is unchanged.
\<close>

theorem self_alias_suppressed:
  assumes "c_alias exp = Some (qualified_name exp)"
  shows "visit x s (EColumn exp) ctx = (Inr (escaped_reference x exp), ctx)"
  using assms
  by (cases "table_name exp")
     (simp_all add: visit_column_def qualified_name_def escaped_reference_def truthy_def
       or_empty_def escape_identifier_def escape_alias_def)

text \<open>C6 on \<open>foo\<close> aliased \<open>foo\<close> and on \<open>t.foo\<close> aliased \<open>t.foo\<close>.\<close>

theorem self_alias_suppressed_witness:
  "visit (spec_escaping (CHR 0x60) []) Canonical (EColumn (Column (Some ''foo'') None ''foo'')) {}
     = (Inr ''foo'', {})
   \<and> visit (spec_escaping (CHR 0x60) []) Anonymized
        (EColumn (Column (Some ''t.foo'') (Some ''t'') ''foo'')) {}
     = (Inr ''t.foo'', {})"
proof -
  let ?X = "spec_escaping (CHR 0x60) []"
  have a: "c_alias (Column (Some ''foo'') None ''foo'')
             = Some (qualified_name (Column (Some ''foo'') None ''foo''))"
    by (simp add: qualified_name_def)
  have b: "c_alias (Column (Some ''t.foo'') (Some ''t'') ''foo'')
             = Some (qualified_name (Column (Some ''t.foo'') (Some ''t'') ''foo''))"
    by (simp add: qualified_name_def)
  have ea: "escaped_reference ?X (Column (Some ''foo'') None ''foo'') = ''foo''"
    by (simp add: escaped_reference_def esc_defs)
  have eb: "escaped_reference ?X (Column (Some ''t.foo'') (Some ''t'') ''foo'') = ''t.foo''"
    by (simp add: escaped_reference_def esc_defs)
  show ?thesis
    using self_alias_suppressed [OF a, of ?X Canonical "{}"]
      self_alias_suppressed [OF b, of ?X Anonymized "{}"] ea eb
    by simp
qed

section \<open>OR nodes\<close>

text \<open>
  C2, as stated, fails: an OR node with the fresh alias \<open>x\<close> over the columns \<open>a\<close>
  and \<open>b\<close> is rendered as \<open>(a OR b)\<close>, with no AS clause, and the context stays
  empty.
\<close>

theorem or_node_not_aliased_counterexample:
  "visit (spec_escaping (CHR 0x60) []) Canonical
     (FunctionCall (Some ''x'') ''or''
        [EColumn (Column None None ''a''), EColumn (Column None None ''b'')]) {}
     = (Inr ''(a OR b)'', {})"
  by (simp add: OR_def AND_def get_first_level_or_conditions_def visit_column_def fmt_alias_def
      esc_defs)

text \<open>
  C2, amended: a binary OR node is rendered as its flattened operands, visited left to
  right, joined by \<open>OR\<close> inside one pair of parentheses; the text is returned as it is,
  so the alias of the node plays no part and the context is the one its operands leave.
\<close>

theorem or_node_wrapped_unbound:
  "visit x s (FunctionCall alias ''or'' [lhs, rhs]) ctx =
     (case visit_params x s
             (get_first_level_or_conditions lhs @ get_first_level_or_conditions rhs) ctx of
        (Inl e, ctx1) \<Rightarrow> (Inl e, ctx1)
      | (Inr formatted, ctx1) \<Rightarrow> (Inr (''('' @ join '' OR '' formatted @ '')''), ctx1))"
  by (simp add: AND_def OR_def get_first_level_or_conditions_def flat_binary_not_self)

section \<open>AND chains\<close>

text \<open>
  C5: a left-nested chain of AND nodes over operands that are not AND calls is rendered as
  the operands, visited in source order, joined by \<open>AND\<close> with no parentheses added;
  the text is returned as it is, so the aliases of the AND nodes play no part.
\<close>

theorem and_chain_flat_unbound:
  assumes "rest \<noteq> []"
    and "list_all (\<lambda>e. \<not> is_call_of ''and'' e) (first # map snd rest)"
  shows "visit x s (and_chain first rest) ctx =
     (case visit_params x s (first # map snd rest) ctx of
        (Inl e, ctx1) \<Rightarrow> (Inl e, ctx1)
      | (Inr formatted, ctx1) \<Rightarrow> (Inr (join '' AND '' formatted), ctx1))"
proof -
  obtain front al operand where rest: "rest = front @ [(al, operand)]"
    using assms(1) by (cases rest rule: rev_cases) auto
  have top: "and_chain first rest = FunctionCall al ''and'' [and_chain first front, operand]"
    by (simp add: rest and_chain_snoc)
  have "get_first_level_conditions ''and'' (and_chain first front)
          @ get_first_level_conditions ''and'' operand
        = get_first_level_conditions ''and'' (and_chain first rest)"
    by (simp add: top)
  also have "\<dots> = concat (map (get_first_level_conditions ''and'') (first # map snd rest))"
    by (simp add: flat_and_chain)
  also have "\<dots> = first # map snd rest"
    using assms(2) by (rule flat_leaves)
  finally show ?thesis
    by (simp only: top visit_and_binary)
qed

text \<open>C5 on the chain of three AND nodes over the columns \<open>a\<close>, \<open>b\<close>, \<open>c\<close>, \<open>d\<close>.\<close>

theorem and_chain_flat_unbound_witness:
  "visit (spec_escaping (CHR 0x60) []) Canonical
     (FunctionCall (Some ''z'') ''and''
        [FunctionCall (Some ''y'') ''and''
           [FunctionCall None ''and''
              [EColumn (Column None None ''a''), EColumn (Column None None ''b'')],
            EColumn (Column None None ''c'')],
         EColumn (Column None None ''d'')]) {}
     = (Inr ''a AND b AND c AND d'', {})"
proof -
  let ?a = "EColumn (Column None None ''a'')"
  let ?rest = "[(None, EColumn (Column None None ''b'')),
                (Some ''y'', EColumn (Column None None ''c'')),
                (Some ''z'', EColumn (Column None None ''d''))]"
  have n: "?rest \<noteq> []" by simp
  have l: "list_all (\<lambda>e. \<not> is_call_of ''and'' e) (?a # map snd ?rest)" by simp
  have v: "visit_params (spec_escaping (CHR 0x60) []) Canonical (?a # map snd ?rest) {}
             = (Inr [''a'', ''b'', ''c'', ''d''], {})"
    by (simp add: visit_column_def fmt_alias_def esc_defs)
  show ?thesis
    using and_chain_flat_unbound [OF n l, of "spec_escaping (CHR 0x60) []" Canonical "{}"]
    by (simp only: v and_chain.simps) simp
qed

section \<open>Anonymized output does not depend on literal values\<close>

text \<open>
  C7: two trees that are equal except for the values of literals, each value replaced by
  one of the same kind at the same position under the same alias, have the same
  anonymized output from the same context, a fresh one in particular. A single changed
  literal is the case the claim names.
\<close>

theorem anonymized_value_independent:
  assumes "same_shape e e'"
  shows "visit x Anonymized e ctx = visit x Anonymized e' ctx"
  using anon_same_shape(1) [OF refl assms] .

text \<open>C7 on two comparisons that differ in the string compared with.\<close>

theorem anonymized_value_independent_witness:
  "visit (spec_escaping (CHR 0x60) []) Anonymized
     (FunctionCall (Some ''r'') ''equals''
        [EColumn (Column None None ''a''), ELiteral (Literal None (VStr ''secret''))]) {}
   = (Inr ''(equals(a, $S) AS r)'', {''r''})
   \<and> visit (spec_escaping (CHR 0x60) []) Anonymized
     (FunctionCall (Some ''r'') ''equals''
        [EColumn (Column None None ''a''), ELiteral (Literal None (VStr ''other''))]) {}
   = (Inr ''(equals(a, $S) AS r)'', {''r''})"
proof -
  let ?X = "spec_escaping (CHR 0x60) []"
  let ?e = "FunctionCall (Some ''r'') ''equals''
        [EColumn (Column None None ''a''), ELiteral (Literal None (VStr ''secret''))]"
  let ?e' = "FunctionCall (Some ''r'') ''equals''
        [EColumn (Column None None ''a''), ELiteral (Literal None (VStr ''other''))]"
  have sh: "same_shape ?e ?e'" by simp
  have v: "visit ?X Anonymized ?e {} = (Inr ''(equals(a, $S) AS r)'', {''r''})"
    by (simp add: AND_def OR_def visit_column_def visit_literal_def format_string_literal_def
        fmt_alias_def is_alias_present_def add_alias_def esc_defs)
  have "visit ?X Anonymized ?e' {} = visit ?X Anonymized ?e {}"
    using anonymized_value_independent [OF sh, of ?X "{}"] by (rule sym)
  then show ?thesis using v by (simp only: simp_thms)
qed

section \<open>The committable offset\<close>

text \<open>
  C8: a history that follows the protocol (offsets added in strictly increasing order,
  each removed at most once, after it was added) runs without an error. After any history
  that ran without an error, the offsets were added in strictly increasing order and each
  removed at most once, \<open>value\<close> returns the earliest offset added and not yet removed,
  or one past the last added offset when there is none, or the epoch when nothing was
  added, and \<open>add\<close> of an offset that is not greater than some added offset raises
  \<open>ValueError\<close>.
\<close>

theorem tracker_value_committable:
  "(follows_protocol e [] [] cs \<longrightarrow> (\<exists>t'. tracker_run (tracker_init e) cs = Inr t'))
   \<and> (tracker_run (tracker_init e) cs = Inr t \<longrightarrow>
        sorted_wrt (<) (added cs) \<and> distinct (removed cs)
        \<and> tracker_value t = committable e cs
        \<and> (a \<in> set (added cs) \<and> offset \<le> a \<longrightarrow>
             tracker_add t offset = Inl (ValueError ''offset must move monotonically'')))"
proof (intro conjI impI)
  assume "follows_protocol e [] [] cs"
  then show "\<exists>t'. tracker_run (tracker_init e) cs = Inr t'"
    using protocol_accepted [OF inv_init, of "[]" "[]" e cs] by simp
next
  assume r: "tracker_run (tracker_init e) cs = Inr t"
  then have inv: "tracker_inv e cs t" by (rule inv_run)
  show "sorted_wrt (<) (added cs)" "distinct (removed cs)"
    using inv by (simp_all add: tracker_inv_def)
  show "tracker_value t = committable e cs" using inv by (rule inv_value)
  assume "a \<in> set (added cs) \<and> offset \<le> a"
  then show "tracker_add t offset = Inl (ValueError ''offset must move monotonically'')"
    using inv_add_rejected [OF inv] by blast
qed

text \<open>C8 on a tracker of epoch 10 after adding 10, 12 and 15 and removing 10 and 15.\<close>

theorem tracker_value_committable_witness:
  "follows_protocol 10 [] [] [Add 10, Add 12, Add 15, Remove 10, Remove 15]
   \<and> tracker_run (tracker_init 10) [Add 10, Add 12, Add 15, Remove 10, Remove 15]
     = Inr \<lparr>epoch = 10, completed = [Some True, None, Some False, None, None, Some True]\<rparr>
   \<and> tracker_value \<lparr>epoch = 10, completed = [Some True, None, Some False, None, None, Some True]\<rparr>
       = 12
   \<and> tracker_add \<lparr>epoch = 10, completed = [Some True, None, Some False, None, None, Some True]\<rparr> 15
       = Inl (ValueError ''offset must move monotonically'')"
proof -
  let ?cs = "[Add 10, Add 12, Add 15, Remove 10, Remove 15]"
  let ?t = "\<lparr>epoch = 10, completed = [Some True, None, Some False, None, None, Some True]\<rparr>"
  have f: "follows_protocol 10 [] [] ?cs" by simp
  have r: "tracker_run (tracker_init 10) ?cs = Inr ?t"
    by (simp add: tracker_init_def tracker_add_def tracker_remove_def get_index_def
        eval_nat_numeral)
  have c: "committable 10 ?cs = 12" by (simp add: committable_def)
  show ?thesis
    using tracker_value_committable [of 10 ?cs ?t 15 15] f r c by simp
qed

end
